theory Spec2Isabelle
  imports Complex_Main "HOL-Library.Multiset"
begin

section \<open>Python values and strings\<close>

text \<open>
  A Python \<open>str\<close> is a sequence of Unicode code points; a code point is modelled as a
  natural number and a string as a list of them, so that \<open>'\xa0'\<close> is the single
  element \<open>160\<close>. Column names, cell contents and messages are all of this type.
\<close>

type_synonym pystr = "nat list"

definition ascii :: "string \<Rightarrow> pystr" where
  "ascii s = map of_char s"

text \<open>
  The scalar values a cell can hold: \<open>None\<close>, the float NaN, an \<open>int\<close>, any other
  \<open>float\<close>, and a \<open>str\<close>. A float other than NaN is given by what
  \<open>normalize\<close> observes of it: its \<open>str()\<close> form and its \<open>int()\<close> truncation.
\<close>

datatype pyval =
    PNone
  | PNaN
  | PInt int
  | PFloat (float_str: pystr) (float_int: int)
  | PStr pystr

text \<open>
  The characters \<open>str.strip()\<close> removes when called without argument: the code points
  for which \<open>str.isspace()\<close> holds.
\<close>

definition is_space :: "nat \<Rightarrow> bool" where
  "is_space c \<longleftrightarrow>
     (9 \<le> c \<and> c \<le> 13) \<or> (28 \<le> c \<and> c \<le> 32) \<or> c = 133 \<or> c = 160 \<or> c = 5760 \<or>
     (8192 \<le> c \<and> c \<le> 8202) \<or> c = 8232 \<or> c = 8233 \<or> c = 8239 \<or> c = 8287 \<or> c = 12288"

definition strip :: "pystr \<Rightarrow> pystr" where
  "strip s = rev (dropWhile is_space (rev (dropWhile is_space s)))"

text \<open>\<open>s.replace(c, "")\<close> for a one-character pattern \<open>c\<close>.\<close>

definition remove_char :: "nat \<Rightarrow> pystr \<Rightarrow> pystr" where
  "remove_char c s = filter (\<lambda>x. x \<noteq> c) s"

definition endswith :: "pystr \<Rightarrow> pystr \<Rightarrow> bool" where
  "endswith s suf \<longleftrightarrow> length suf \<le> length s \<and> drop (length s - length suf) s = suf"

text \<open>\<open>str(n)\<close> for an \<open>int\<close>: decimal digits, with a minus sign when negative.\<close>

fun str_nat :: "nat \<Rightarrow> pystr" where
  "str_nat n = (if n < 10 then [48 + n] else str_nat (n div 10) @ [48 + n mod 10])"

definition str_int :: "int \<Rightarrow> pystr" where
  "str_int i = (if i < 0 then 45 # str_nat (nat (- i)) else str_nat (nat i))"

section \<open>Normalizer\<close>

text \<open>
  \<open>normalize\<close>, the function nested in \<open>compare_chunk\<close>. \<open>pd.isna(val) or val is None\<close>
  holds for NaN and \<open>None\<close>; an \<open>int\<close> or \<open>float\<close> is first replaced by
  \<open>str(int(val))\<close> when \<open>str(val)\<close> ends in \<open>.0\<close> and by \<open>str(val)\<close> otherwise
  (the \<open>str\<close> of an \<open>int\<close> never ends in \<open>.0\<close>); the string is then stripped and
  every \<open>\xa0\<close>, \<open>\r\<close> and \<open>\t\<close> is removed.
\<close>

definition clean :: "pystr \<Rightarrow> pystr" where
  "clean s = remove_char 9 (remove_char 13 (remove_char 160 (strip s)))"

fun normalize :: "pyval \<Rightarrow> pystr" where
  "normalize PNone = []"
| "normalize PNaN = []"
| "normalize (PInt i) = clean (str_int i)"
| "normalize (PFloat s i) = clean (if endswith s (ascii ''.0'') then str_int i else s)"
| "normalize (PStr s) = clean s"

text \<open>A string carries no leading or trailing whitespace.\<close>

definition stripped :: "pystr \<Rightarrow> bool" where
  "stripped s \<longleftrightarrow> s = [] \<or> (\<not> is_space (hd s) \<and> \<not> is_space (last s))"

section \<open>Tables\<close>

text \<open>
  A pandas \<open>DataFrame\<close>: its column labels, in order, and its rows, in order. A row gives
  the cell of every column; \<open>row[col]\<close> is defined for the labels in \<open>columns\<close> and
  raises \<open>KeyError\<close> for any other label, so a row is modelled as a function on labels
  that is read only under a check that the label is a column.
  The frames of this program come from \<open>pd.read_csv\<close>, which makes the labels distinct.
\<close>

datatype error = KeyError pystr | ValueError | ZeroDivisionError

type_synonym row = "pystr \<Rightarrow> pyval"

record dataframe =
  columns :: "pystr list"
  rows :: "row list"

text \<open>\<open>df[col]\<close>: the cells of one column, in row order.\<close>

definition getcol :: "dataframe \<Rightarrow> pystr \<Rightarrow> error + pyval list" where
  "getcol df col = (if col \<in> set (columns df) then Inr (map (\<lambda>r. r col) (rows df)) else Inl (KeyError col))"

text \<open>\<open>df.empty\<close>: an axis of the frame has length 0.\<close>

definition df_empty :: "dataframe \<Rightarrow> bool" where
  "df_empty df \<longleftrightarrow> rows df = [] \<or> columns df = []"

text \<open>\<open>df.iloc[start:end]\<close> for non-negative bounds.\<close>

definition iloc :: "dataframe \<Rightarrow> nat \<Rightarrow> nat \<Rightarrow> dataframe" where
  "iloc df start end = df\<lparr>rows := drop start (take end (rows df))\<rparr>"

subsection \<open>Loading\<close>

text \<open>
  \<open>read_blob_to_df\<close>. The download and \<open>pd.read_csv(..., dtype=str)\<close> are outside the
  model: the argument is the frame \<open>read_csv\<close> returns, whose cells are strings or NaN.
  \<open>fillna("")\<close> replaces NaN and \<open>None\<close> by the empty string; \<open>applymap\<close> strips
  every cell that is a \<open>str\<close> and leaves any other cell as it is.
\<close>

fun fillna :: "pyval \<Rightarrow> pyval" where
  "fillna PNone = PStr []"
| "fillna PNaN = PStr []"
| "fillna v = v"

fun strip_cell :: "pyval \<Rightarrow> pyval" where
  "strip_cell (PStr s) = PStr (strip s)"
| "strip_cell v = v"

definition read_blob_to_df :: "dataframe \<Rightarrow> dataframe" where
  "read_blob_to_df csv = csv\<lparr>rows := map (\<lambda>r col. strip_cell (fillna (r col))) (rows csv)\<rparr>"

text \<open>What loading leaves in a cell: never NaN or \<open>None\<close>, and a string only stripped.\<close>

fun preprocessed :: "pyval \<Rightarrow> bool" where
  "preprocessed PNone = False"
| "preprocessed PNaN = False"
| "preprocessed (PStr s) = stripped s"
| "preprocessed v = True"

section \<open>Tuning\<close>

text \<open>
  \<open>auto_tune_settings\<close>. The two readings of \<open>psutil\<close> are parameters: the number of
  physical cores (\<open>None\<close> when it cannot be determined) and the available memory in
  bytes. \<open>cpu_count(...) or 1\<close> is 1 for \<open>None\<close> and for 0.
\<close>

definition auto_tune_settings :: "nat option \<Rightarrow> nat \<Rightarrow> nat \<Rightarrow> nat \<times> nat" where
  "auto_tune_settings cores mem_available total_records =
     (let cpu_count = (case cores of None \<Rightarrow> 1 | Some n \<Rightarrow> if n = 0 then 1 else n);
          mem_gb = real mem_available / 1024 ^ 3;
          (chunk_size, threads) =
            (if total_records \<le> 100000 then (20000, min 6 cpu_count)
             else if total_records \<le> 1000000 then (30000, min 8 (cpu_count * 2))
             else (50000, min 16 (cpu_count * 2)))
      in if mem_gb < 4 then (max 5000 (chunk_size div 2), max 2 (threads div 2))
         else (chunk_size, threads))"

text \<open>
  The policy as the specification words it (TuningAdvisor): a threshold table on the row
  count, then both values halved, with floors 5000 and 2, when fewer than 4 GB are
  available.
\<close>

definition advise_table :: "nat \<Rightarrow> nat \<Rightarrow> nat \<times> nat" where
  "advise_table total_source_rows cores =
     (if total_source_rows \<le> 100000 then (20000, min 6 cores)
      else if total_source_rows \<le> 1000000 then (30000, min 8 (cores * 2))
      else (50000, min 16 (cores * 2)))"

definition advise :: "nat \<Rightarrow> nat \<Rightarrow> real \<Rightarrow> nat \<times> nat" where
  "advise total_source_rows cores available_memory_gb =
     (if available_memory_gb < 4
      then (max 5000 (fst (advise_table total_source_rows cores) div 2),
            max 2 (snd (advise_table total_source_rows cores) div 2))
      else advise_table total_source_rows cores)"

section \<open>Chunk comparison\<close>

text \<open>
  A diff record: \<open>{"PK", "Status": "MISSING_IN_TARGET"}\<close>, or
  \<open>{"PK", "Status": "MISMATCH", "Diff"}\<close> where \<open>Diff\<close> serialises the dictionary
  \<open>col \<mapsto> {"src", "tgt"}\<close>, kept here as its entries in insertion order.
\<close>

datatype diff =
    MissingInTarget pystr
  | Mismatch pystr "(pystr \<times> pystr \<times> pystr) list"

record chunk_result =
  diffs :: "diff list"
  matched :: nat
  missing :: nat
  mismatched :: nat
  checked :: nat

type_synonym tgt_row = "pystr \<rightharpoonup> pystr"
type_synonym tgt_map = "pystr \<rightharpoonup> tgt_row"

text \<open>\<open>{col: normalize(row[col]) for col in tgt_chunk.columns}\<close>\<close>

definition row_dict :: "pystr list \<Rightarrow> row \<Rightarrow> tgt_row" where
  "row_dict cols r = map_of (map (\<lambda>col. (col, normalize (r col))) cols)"

text \<open>\<open>tgt_row.get(col, "")\<close>\<close>

definition get_or_empty :: "tgt_row \<Rightarrow> pystr \<Rightarrow> pystr" where
  "get_or_empty tgt_row col = (case tgt_row col of None \<Rightarrow> [] | Some v \<Rightarrow> v)"

text \<open>
  The first loop of \<open>compare_chunk\<close>: a later row overwrites an earlier one with the
  same normalized key. \<open>row[pk_col]\<close> raises when \<open>pk_col\<close> is not a column.
\<close>

fun build_tgt_map :: "pystr list \<Rightarrow> pystr \<Rightarrow> row list \<Rightarrow> tgt_map \<Rightarrow> error + tgt_map" where
  "build_tgt_map cols pk_col [] tgt_map = Inr tgt_map"
| "build_tgt_map cols pk_col (r # rs) tgt_map =
     (if pk_col \<in> set cols
      then build_tgt_map cols pk_col rs (tgt_map(normalize (r pk_col) \<mapsto> row_dict cols r))
      else Inl (KeyError pk_col))"

text \<open>The inner loop over the source columns: the entries of \<open>mismatch\<close>.\<close>

definition mismatch_of :: "pystr list \<Rightarrow> pystr \<Rightarrow> row \<Rightarrow> tgt_row \<Rightarrow> (pystr \<times> pystr \<times> pystr) list" where
  "mismatch_of cols pk_col src_row tgt_row =
     map (\<lambda>col. (col, normalize (src_row col), get_or_empty tgt_row col))
       (filter (\<lambda>col. col \<noteq> pk_col \<and> normalize (src_row col) \<noteq> get_or_empty tgt_row col) cols)"

text \<open>The second loop of \<open>compare_chunk\<close>, with the five locals as the state.\<close>

fun compare_rows :: "pystr list \<Rightarrow> pystr \<Rightarrow> tgt_map \<Rightarrow> row list \<Rightarrow> chunk_result \<Rightarrow> error + chunk_result" where
  "compare_rows cols pk_col tgt_map [] st = Inr st"
| "compare_rows cols pk_col tgt_map (src_row # rs) st =
     (if pk_col \<notin> set cols then Inl (KeyError pk_col)
      else
        let st1 = st\<lparr>checked := checked st + 1\<rparr>;
            pk_val = normalize (src_row pk_col)
        in case tgt_map pk_val of
             None \<Rightarrow>
               compare_rows cols pk_col tgt_map rs
                 (st1\<lparr>missing := missing st1 + 1,
                      diffs := diffs st1 @ [MissingInTarget pk_val]\<rparr>)
           | Some tgt_row \<Rightarrow>
               let mismatch = mismatch_of cols pk_col src_row tgt_row
               in if mismatch \<noteq> []
                  then compare_rows cols pk_col tgt_map rs
                         (st1\<lparr>mismatched := mismatched st1 + 1,
                              diffs := diffs st1 @ [Mismatch pk_val mismatch]\<rparr>)
                  else compare_rows cols pk_col tgt_map rs (st1\<lparr>matched := matched st1 + 1\<rparr>))"

text \<open>The four counters of a result, without its diff list.\<close>

definition counters :: "chunk_result \<Rightarrow> nat \<times> nat \<times> nat \<times> nat" where
  "counters r = (matched r, missing r, mismatched r, checked r)"

definition zero_result :: chunk_result where
  "zero_result = \<lparr>diffs = [], matched = 0, missing = 0, mismatched = 0, checked = 0\<rparr>"

text \<open>
  \<open>compare_chunk\<close>; \<open>chunk_id\<close>, the timer and the thread name only feed the log lines
  and are left out.
\<close>

definition compare_chunk :: "dataframe \<Rightarrow> dataframe \<Rightarrow> pystr \<Rightarrow> error + chunk_result" where
  "compare_chunk src_chunk tgt_chunk pk_col =
     (case (if \<not> df_empty tgt_chunk
            then build_tgt_map (columns tgt_chunk) pk_col (rows tgt_chunk) Map.empty
            else Inr Map.empty) of
        Inl e \<Rightarrow> Inl e
      | Inr tgt_map \<Rightarrow>
          compare_rows (columns src_chunk) pk_col tgt_map (rows src_chunk) zero_result)"

section \<open>Comparison engine\<close>

text \<open>
  The slice of the source table for chunk \<open>i\<close>, and the target rows kept for it:
  \<open>tgt_df[tgt_df[pk_col].isin(src_chunk[pk_col])]\<close>, a membership test on the cells as
  they are in the frames (for strings, string equality).
\<close>

definition src_chunk_of :: "dataframe \<Rightarrow> nat \<Rightarrow> nat \<Rightarrow> dataframe" where
  "src_chunk_of src_df chunk_size i =
     iloc src_df (i * chunk_size) (min ((i + 1) * chunk_size) (length (rows src_df)))"

definition tgt_chunk_of :: "dataframe \<Rightarrow> dataframe \<Rightarrow> pystr \<Rightarrow> error + dataframe" where
  "tgt_chunk_of tgt_df src_chunk pk_col =
     (case getcol tgt_df pk_col of
        Inl e \<Rightarrow> Inl e
      | Inr tgt_keys \<Rightarrow>
          (case getcol src_chunk pk_col of
             Inl e \<Rightarrow> Inl e
           | Inr src_keys \<Rightarrow>
               Inr (tgt_df\<lparr>rows := map snd (filter (\<lambda>(k, r). k \<in> set src_keys) (zip tgt_keys (rows tgt_df)))\<rparr>)))"

text \<open>
  The submission loop over \<open>range(chunks)\<close>. A future holds what its call of
  \<open>compare_chunk\<close> returns or raises; an exception raised while building a chunk leaves
  the loop at once.
\<close>

fun submit_chunks :: "dataframe \<Rightarrow> dataframe \<Rightarrow> pystr \<Rightarrow> nat \<Rightarrow> nat list \<Rightarrow> error + (error + chunk_result) list" where
  "submit_chunks src_df tgt_df pk_col chunk_size [] = Inr []"
| "submit_chunks src_df tgt_df pk_col chunk_size (i # is) =
     (let src_chunk = src_chunk_of src_df chunk_size i
      in case tgt_chunk_of tgt_df src_chunk pk_col of
           Inl e \<Rightarrow> Inl e
         | Inr tgt_chunk \<Rightarrow>
             (case submit_chunks src_df tgt_df pk_col chunk_size is of
                Inl e \<Rightarrow> Inl e
              | Inr futures \<Rightarrow> Inr (compare_chunk src_chunk tgt_chunk pk_col # futures)))"

text \<open>
  \<open>as_completed(futures)\<close> yields every future once, in the order in which the workers
  finish. The order is a parameter: a schedule is a list of choices, and each step
  yields the pending future at position \<open>choice mod pending\<close> (position 0 when the
  schedule is used up). Every order of the futures arises from some schedule.
\<close>

definition pick :: "nat list \<Rightarrow> nat \<Rightarrow> nat" where
  "pick sched n = (case sched of [] \<Rightarrow> 0 | c # _ \<Rightarrow> c mod n)"

function as_completed :: "nat list \<Rightarrow> 'a list \<Rightarrow> 'a list" where
  "as_completed sched [] = []"
| "as_completed sched (f # fs) =
     (f # fs) ! pick sched (Suc (length fs)) #
     as_completed (tl sched)
       (take (pick sched (Suc (length fs))) (f # fs) @ drop (Suc (pick sched (Suc (length fs)))) (f # fs))"
  by pat_completeness auto
termination
  by (relation "measure (\<lambda>(sched, fs). length fs)") (auto simp: pick_def split: list.splits)

text \<open>The collection loop: \<open>f.result()\<close> re-raises what the chunk raised.\<close>

fun aggregate :: "(error + chunk_result) list \<Rightarrow> chunk_result \<Rightarrow> error + chunk_result" where
  "aggregate [] acc = Inr acc"
| "aggregate (f # fs) acc =
     (case f of
        Inl e \<Rightarrow> Inl e
      | Inr res \<Rightarrow>
          aggregate fs
            \<lparr>diffs = diffs acc @ diffs res,
             matched = matched acc + matched res,
             missing = missing acc + missing res,
             mismatched = mismatched acc + mismatched res,
             checked = checked acc + checked res\<rparr>)"

text \<open>
  What a run leaves behind: the row counts, the aggregated counters and diff list, and
  the text written to the output blob.
\<close>

record report =
  total_source :: nat
  total_target :: nat
  totals :: chunk_result
  content :: pystr

definition summary :: "nat \<Rightarrow> nat \<Rightarrow> chunk_result \<Rightarrow> pystr" where
  "summary n_source n_target tot =
     ascii ''Source count : '' @ str_nat n_source @ [10] @
     ascii ''Target count : '' @ str_nat n_target @ [10] @
     ascii ''Matched count : '' @ str_nat (matched tot) @ [10] @
     ascii ''Mismatched count : '' @ str_nat (mismatched tot)"

text \<open>
  The body of \<open>process_parallel_blob\<close> from the computation of \<open>chunks\<close> on, with the
  tuned settings and the completion order as parameters. \<open>math.ceil(total_source /
  chunk_size)\<close> goes through a float quotient, whose ceiling is the exact one
  (\<open>ceil_div\<close>) for any row count below \<open>2^53\<close>; it raises
  \<open>ZeroDivisionError\<close> for a chunk size of 0, and \<open>ThreadPoolExecutor\<close> raises
  \<open>ValueError\<close> for no worker. Upload, timing and log lines are left out.
\<close>

definition ceil_div :: "nat \<Rightarrow> nat \<Rightarrow> nat" where
  "ceil_div n d = (n + d - 1) div d"

definition compare_frames :: "dataframe \<Rightarrow> dataframe \<Rightarrow> pystr \<Rightarrow> nat \<Rightarrow> nat \<Rightarrow> nat list \<Rightarrow> error + report" where
  "compare_frames src_df tgt_df pk_col chunk_size thread_count sched =
     (if chunk_size = 0 then Inl ZeroDivisionError
      else
        let chunks = ceil_div (length (rows src_df)) chunk_size
        in if thread_count = 0 then Inl ValueError
           else case submit_chunks src_df tgt_df pk_col chunk_size [0..<chunks] of
                  Inl e \<Rightarrow> Inl e
                | Inr futures \<Rightarrow>
                    (case aggregate (as_completed sched futures) zero_result of
                       Inl e \<Rightarrow> Inl e
                     | Inr tot \<Rightarrow>
                         Inr \<lparr>total_source = length (rows src_df),
                              total_target = length (rows tgt_df),
                              totals = tot,
                              content = summary (length (rows src_df)) (length (rows tgt_df)) tot\<rparr>))"

definition key_error_message :: "pystr \<Rightarrow> pystr" where
  "key_error_message pk_col =
     ascii ''Primary key '' @ [39] @ pk_col @ [39] @ ascii '' not found in one of the files''"

text \<open>
  \<open>process_parallel_blob\<close>: both tables are loaded, the key column is looked for in
  both, the settings are tuned from the source row count, and the chunks are compared.
\<close>

definition process_parallel_blob ::
  "nat option \<Rightarrow> nat \<Rightarrow> nat list \<Rightarrow> dataframe \<Rightarrow> dataframe \<Rightarrow> pystr \<Rightarrow> error + report" where
  "process_parallel_blob cores mem_available sched source_csv target_csv pk_col =
     (let src_df = read_blob_to_df source_csv;
          tgt_df = read_blob_to_df target_csv
      in if pk_col \<notin> set (columns src_df) \<or> pk_col \<notin> set (columns tgt_df)
         then Inl (KeyError (key_error_message pk_col))
         else
           let (chunk_size, thread_count) =
                 auto_tune_settings cores mem_available (length (rows src_df))
           in compare_frames src_df tgt_df pk_col chunk_size thread_count sched)"

text \<open>
  Rows of a table that share a normalized key carry the same normalized cells in every
  column; this holds in particular when the normalized keys are pairwise distinct.
\<close>

definition same_key_rows_agree :: "dataframe \<Rightarrow> pystr \<Rightarrow> bool" where
  "same_key_rows_agree df pk_col \<longleftrightarrow>
     (\<forall>r1 \<in> set (rows df). \<forall>r2 \<in> set (rows df).
        normalize (r1 pk_col) = normalize (r2 pk_col) \<longrightarrow>
        (\<forall>col \<in> set (columns df). normalize (r1 col) = normalize (r2 col)))"

section \<open>Example tables\<close>

text \<open>Small tables on which the definitions above are evaluated.\<close>

definition mk_row :: "(pystr \<times> pyval) list \<Rightarrow> row" where
  "mk_row cells = (\<lambda>col. case map_of cells col of None \<Rightarrow> PNone | Some v \<Rightarrow> v)"

definition ex_src :: dataframe where
  "ex_src = \<lparr>columns = [ascii ''pk'', ascii ''a''],
             rows = [mk_row [(ascii ''pk'', PStr (ascii ''1'')), (ascii ''a'', PStr (ascii ''X''))],
                     mk_row [(ascii ''pk'', PStr (ascii ''2'')), (ascii ''a'', PStr (ascii ''Y''))]]\<rparr>"

definition ex_tgt :: dataframe where
  "ex_tgt = \<lparr>columns = [ascii ''pk'', ascii ''a''],
             rows = [mk_row [(ascii ''pk'', PStr (ascii ''1'')), (ascii ''a'', PStr (ascii ''X''))],
                     mk_row [(ascii ''pk'', PStr (ascii ''3'')), (ascii ''a'', PStr (ascii ''Z''))]]\<rparr>"

definition ex_nokey :: dataframe where
  "ex_nokey = \<lparr>columns = [ascii ''a''], rows = [mk_row [(ascii ''a'', PStr (ascii ''X''))]]\<rparr>"

definition ex_csv :: dataframe where
  "ex_csv = \<lparr>columns = [ascii ''pk'', ascii ''a''],
             rows = [mk_row [(ascii ''pk'', PStr (ascii '' 7 '')), (ascii ''a'', PNaN)]]\<rparr>"

definition ex_dup :: dataframe where
  "ex_dup = \<lparr>columns = [ascii ''pk'', ascii ''a''],
             rows = [mk_row [(ascii ''pk'', PStr (ascii ''1'')), (ascii ''a'', PStr (ascii ''X''))],
                     mk_row [(ascii ''pk'', PStr (ascii ''1'')), (ascii ''a'', PStr (ascii ''Y''))]]\<rparr>"

definition ex_nbsp_src :: dataframe where
  "ex_nbsp_src = \<lparr>columns = [ascii ''pk'', ascii ''a''],
             rows = [mk_row [(ascii ''pk'', PStr [65, 160, 66]), (ascii ''a'', PStr (ascii ''X''))]]\<rparr>"

definition ex_nbsp_tgt :: dataframe where
  "ex_nbsp_tgt = \<lparr>columns = [ascii ''pk'', ascii ''a''],
             rows = [mk_row [(ascii ''pk'', PStr [65, 66]), (ascii ''a'', PStr (ascii ''X''))]]\<rparr>"

definition ex_result :: chunk_result where
  "ex_result = \<lparr>diffs = [MissingInTarget (ascii ''2'')], matched = 1, missing = 1,
                 mismatched = 0, checked = 2\<rparr>"

definition ex_report :: report where
  "ex_report = \<lparr>total_source = 2, total_target = 2, totals = ex_result,
                 content = ascii ''Source count : 2'' @ [10] @ ascii ''Target count : 2'' @ [10] @
                           ascii ''Matched count : 1'' @ [10] @ ascii ''Mismatched count : 0''\<rparr>"

section \<open>Properties of the normalizer\<close>

lemma stripped_strip: "stripped (strip s)"
proof -
  define d where "d = dropWhile is_space s"
  define e where "e = dropWhile is_space (rev d)"
  have st: "strip s = rev e" by (simp add: strip_def d_def e_def)
  show ?thesis
  proof (cases "e = []")
    case True
    then show ?thesis by (simp add: st stripped_def)
  next
    case False
    have he: "\<not> is_space (hd e)" using False unfolding e_def by (rule hd_dropWhile)
    have dne: "d \<noteq> []" using False by (auto simp: e_def)
    have hd: "\<not> is_space (hd d)" using dne unfolding d_def by (rule hd_dropWhile)
    obtain p where p: "rev d = p @ e"
      by (metis e_def takeWhile_dropWhile_id)
    have "last e = last (rev d)" using False p by simp
    then have "last e = hd d" using dne by (simp add: last_rev)
    then show ?thesis using False he hd by (simp add: st stripped_def hd_rev last_rev)
  qed
qed

lemma strip_stripped: "stripped s \<Longrightarrow> strip s = s"
proof (cases "s = []")
  case True
  then show ?thesis by (simp add: strip_def)
next
  case False
  assume "stripped s"
  with False have h: "\<not> is_space (hd s)" and l: "\<not> is_space (last s)"
    by (simp_all add: stripped_def)
  have 1: "dropWhile is_space s = s" using h False by (cases s) simp_all
  have "\<not> is_space (hd (rev s))" using l False by (simp add: hd_rev)
  then have 2: "dropWhile is_space (rev s) = rev s" using False by (cases "rev s") simp_all
  show ?thesis by (simp add: strip_def 1 2)
qed

lemma stripped_remove_char:
  assumes "stripped s" and "is_space c"
  shows "stripped (remove_char c s)"
proof (cases "s = []")
  case True
  then show ?thesis by (simp add: remove_char_def stripped_def)
next
  case False
  with assms have h: "hd s \<noteq> c" and l: "last s \<noteq> c"
    by (auto simp: stripped_def)
  obtain x xs where s: "s = x # xs" using False by (cases s) auto
  have hd: "hd (remove_char c s) = hd s" using h by (simp add: s remove_char_def)
  obtain ys y where s': "s = ys @ [y]" using False by (metis rev_exhaust)
  have la: "last (remove_char c s) = last s" using l by (simp add: s' remove_char_def)
  have ne: "remove_char c s \<noteq> []" using h by (simp add: s remove_char_def)
  show ?thesis using assms(1) False hd la ne by (simp add: stripped_def)
qed

lemma remove_char_absent: "c \<notin> set s \<Longrightarrow> remove_char c s = s"
  by (induction s) (auto simp: remove_char_def)

lemma notin_remove_char: "c \<notin> set (remove_char c s)"
  by (simp add: remove_char_def)

lemma notin_remove_char_other: "c \<notin> set s \<Longrightarrow> c \<notin> set (remove_char d s)"
  by (simp add: remove_char_def)

lemma stripped_clean: "stripped (clean s)"
  unfolding clean_def
  by (intro stripped_remove_char stripped_strip) (simp_all add: is_space_def)

lemma clean_free:
  "160 \<notin> set (clean s)" "13 \<notin> set (clean s)" "9 \<notin> set (clean s)"
  unfolding clean_def by (simp_all add: remove_char_def)

lemma clean_fixed:
  assumes "stripped s" "160 \<notin> set s" "13 \<notin> set s" "9 \<notin> set s"
  shows "clean s = s"
  using assms by (simp add: clean_def strip_stripped remove_char_absent)

lemma clean_clean: "clean (clean s) = clean s"
  by (rule clean_fixed) (rule stripped_clean clean_free)+

lemma clean_Nil: "clean [] = []"
  by (simp add: clean_def strip_def remove_char_def)

lemma normalize_clean: "clean (normalize v) = normalize v"
  by (cases v) (simp_all add: clean_clean clean_Nil)

text \<open>
  C8. Normalization is idempotent: the result of \<open>normalize\<close> is a string, and
  normalizing that string again gives the same string, for every input value.
\<close>

theorem normalize_idempotent: "normalize (PStr (normalize x)) = normalize x"
  by (simp add: normalize_clean)

section \<open>Evaluation and loop invariants\<close>

lemmas eval_defs =
  process_parallel_blob_def read_blob_to_df_def compare_frames_def
  src_chunk_of_def tgt_chunk_of_def getcol_def iloc_def pick_def ceil_div_def
  compare_chunk_def df_empty_def ascii_def mk_row_def
  row_dict_def mismatch_of_def get_or_empty_def zero_result_def clean_def strip_def
  remove_char_def is_space_def Let_def key_error_message_def

lemma tune_small:
  "n \<le> 100000 \<Longrightarrow> auto_tune_settings (Some 4) 8589934592 n = (20000, 4)"
  by (simp add: auto_tune_settings_def Let_def)

lemma compare_rows_counted:
  "compare_rows cols pk m rs st = Inr res \<Longrightarrow>
   checked st = matched st + missing st + mismatched st \<Longrightarrow>
   checked res = matched res + missing res + mismatched res"
proof (induction rs arbitrary: st)
  case Nil
  then show ?case by simp
next
  case (Cons r rs)
  then show ?case
    by (auto simp: Let_def split: if_splits option.splits dest!: Cons.IH)
qed

lemma compare_rows_diffs:
  "compare_rows cols pk m rs st = Inr res \<Longrightarrow>
   length (diffs st) = missing st + mismatched st \<Longrightarrow>
   length (diffs res) = missing res + mismatched res"
proof (induction rs arbitrary: st)
  case Nil
  then show ?case by simp
next
  case (Cons r rs)
  then show ?case
    by (auto simp: Let_def split: if_splits option.splits dest!: Cons.IH)
qed

lemma compare_chunk_counted:
  "compare_chunk s t pk = Inr res \<Longrightarrow> checked res = matched res + missing res + mismatched res"
  by (auto simp: compare_chunk_def zero_result_def split: sum.splits dest: compare_rows_counted)

lemma compare_chunk_diffs:
  "compare_chunk s t pk = Inr res \<Longrightarrow> length (diffs res) = missing res + mismatched res"
  by (auto simp: compare_chunk_def zero_result_def split: sum.splits dest: compare_rows_diffs)

lemma mset_as_completed: "mset (as_completed sched fs) = mset fs"
proof (induction sched fs rule: as_completed.induct)
  case (1 sched)
  then show ?case by simp
next
  case (2 sched f fs)
  let ?k = "pick sched (Suc (length fs))"
  have k: "?k < length (f # fs)" by (simp add: pick_def split: list.splits)
  have "mset (f # fs) = mset (take ?k (f # fs) @ (f # fs) ! ?k # drop (Suc ?k) (f # fs))"
    using k by (metis id_take_nth_drop)
  then show ?case using 2 by simp
qed

lemma set_as_completed: "set (as_completed sched fs) = set fs"
  by (metis mset_as_completed set_mset_mset)

lemma submit_chunks_futures:
  "submit_chunks S T pk cs is = Inr fs \<Longrightarrow> f \<in> set fs \<Longrightarrow> \<exists>s t. f = compare_chunk s t pk"
proof (induction "is" arbitrary: fs)
  case Nil
  then show ?case by simp
next
  case (Cons i "is")
  then show ?case
    by (auto simp: Let_def split: sum.splits) blast
qed

lemma aggregate_counted:
  "aggregate fs acc = Inr tot \<Longrightarrow>
   (\<And>r. Inr r \<in> set fs \<Longrightarrow> checked r = matched r + missing r + mismatched r) \<Longrightarrow>
   checked acc = matched acc + missing acc + mismatched acc \<Longrightarrow>
   checked tot = matched tot + missing tot + mismatched tot"
proof (induction fs arbitrary: acc)
  case Nil
  then show ?case by simp
next
  case (Cons f fs)
  from Cons.prems(1) obtain r where f: "f = Inr r" by (cases f) auto
  have r: "checked r = matched r + missing r + mismatched r"
    using Cons.prems(2) [of r] by (simp add: f)
  show ?case
    using Cons.prems(1)
    by (simp add: f) (rule Cons.IH, assumption, simp_all add: Cons.prems(2) Cons.prems(3) r)
qed

lemma aggregate_diffs:
  "aggregate fs acc = Inr tot \<Longrightarrow>
   (\<And>r. Inr r \<in> set fs \<Longrightarrow> length (diffs r) = missing r + mismatched r) \<Longrightarrow>
   length (diffs acc) = missing acc + mismatched acc \<Longrightarrow>
   length (diffs tot) = missing tot + mismatched tot"
proof (induction fs arbitrary: acc)
  case Nil
  then show ?case by simp
next
  case (Cons f fs)
  from Cons.prems(1) obtain r where f: "f = Inr r" by (cases f) auto
  have r: "length (diffs r) = missing r + mismatched r"
    using Cons.prems(2) [of r] by (simp add: f)
  show ?case
    using Cons.prems(1)
    by (simp add: f) (rule Cons.IH, assumption, simp_all add: Cons.prems(2) Cons.prems(3) r)
qed

lemma compare_frames_totals:
  assumes "compare_frames S T pk cs w sched = Inr rep"
  obtains fs where "submit_chunks S T pk cs [0..<ceil_div (length (rows S)) cs] = Inr fs"
    and "aggregate (as_completed sched fs) zero_result = Inr (totals rep)"
  using assms
  by (auto simp: compare_frames_def Let_def split: if_splits sum.splits)

lemma compare_frames_counted:
  assumes "compare_frames S T pk cs w sched = Inr rep"
  shows "checked (totals rep) = matched (totals rep) + missing (totals rep) + mismatched (totals rep)"
proof -
  from assms obtain fs where
    sub: "submit_chunks S T pk cs [0..<ceil_div (length (rows S)) cs] = Inr fs" and
    agg: "aggregate (as_completed sched fs) zero_result = Inr (totals rep)"
    by (rule compare_frames_totals)
  show ?thesis
  proof (rule aggregate_counted [OF agg])
    fix r assume "Inr r \<in> set (as_completed sched fs)"
    then have "Inr r \<in> set fs" by (simp add: set_as_completed)
    then obtain s t where "Inr r = compare_chunk s t pk"
      using submit_chunks_futures [OF sub] by blast
    then show "checked r = matched r + missing r + mismatched r"
      by (metis compare_chunk_counted)
  qed (simp add: zero_result_def)
qed

lemma compare_frames_diffs:
  assumes "compare_frames S T pk cs w sched = Inr rep"
  shows "length (diffs (totals rep)) = missing (totals rep) + mismatched (totals rep)"
proof -
  from assms obtain fs where
    sub: "submit_chunks S T pk cs [0..<ceil_div (length (rows S)) cs] = Inr fs" and
    agg: "aggregate (as_completed sched fs) zero_result = Inr (totals rep)"
    by (rule compare_frames_totals)
  show ?thesis
  proof (rule aggregate_diffs [OF agg])
    fix r assume "Inr r \<in> set (as_completed sched fs)"
    then have "Inr r \<in> set fs" by (simp add: set_as_completed)
    then obtain s t where "Inr r = compare_chunk s t pk"
      using submit_chunks_futures [OF sub] by blast
    then show "length (diffs r) = missing r + mismatched r"
      by (metis compare_chunk_diffs)
  qed (simp add: zero_result_def)
qed

lemma process_parallel_blob_frames:
  assumes "process_parallel_blob cores mem sched A B pk = Inr rep"
  obtains cs w where
    "compare_frames (read_blob_to_df A) (read_blob_to_df B) pk cs w sched = Inr rep"
  using assms
  by (auto simp: process_parallel_blob_def Let_def split: if_splits prod.splits)

lemma ex_chunk: "compare_chunk ex_src ex_tgt (ascii ''pk'') = Inr ex_result"
  by (simp add: ex_src_def ex_tgt_def ex_result_def eval_defs)

lemma ex_run:
  "process_parallel_blob (Some 4) 8589934592 [] ex_src ex_tgt (ascii ''pk'') = Inr ex_report"
  by (simp add: ex_src_def ex_tgt_def ex_result_def ex_report_def eval_defs tune_small summary_def)

section \<open>Tuning policy\<close>

text \<open>
  C7. For every row count, core count and amount of available memory, the tuning function
  returns what the threshold table gives (20000 with min(6, cores) up to 100000 rows,
  30000 with min(8, 2 * cores) up to 1000000 rows, 50000 with min(16, 2 * cores) above),
  with the chunk size halved (floor 5000) and the worker count halved (floor 2) when
  fewer than 4 GB are available; the core count is 1 when it is unknown or 0.
\<close>

theorem auto_tune_settings_is_advise:
  "auto_tune_settings cores mem_available n =
     advise n (case cores of None \<Rightarrow> 1 | Some c \<Rightarrow> if c = 0 then 1 else c)
       (real mem_available / 1024 ^ 3)"
  by (simp add: auto_tune_settings_def advise_def advise_table_def Let_def)

section \<open>Partition into chunks\<close>

lemma take_chunks:
  "concat (map (\<lambda>i. drop (i * cs) (take (min ((i + 1) * cs) (length xs)) xs)) [0..<k]) = take (k * cs) xs"
proof (induction k)
  case 0
  then show ?case by simp
next
  case (Suc k)
  have t: "take (min ((k + 1) * cs) (length xs)) xs = take ((k + 1) * cs) xs"
    by (simp add: min_def)
  have "take (k * cs) xs @ drop (k * cs) (take ((k + 1) * cs) xs) = take ((k + 1) * cs) xs"
    by (metis add.commute mult_Suc Suc_eq_plus1 take_add take_drop)
  then show ?case using Suc t by simp
qed

lemma ceil_div_covers: "1 \<le> cs \<Longrightarrow> (n::nat) \<le> ((n + cs - 1) div cs) * cs"
proof -
  assume cs: "1 \<le> cs"
  have "(n + cs - 1) = ((n + cs - 1) div cs) * cs + (n + cs - 1) mod cs" by simp
  moreover have "(n + cs - 1) mod cs \<le> cs - 1" using cs
    by (metis Suc_pred' le_simps(2) less_eq_Suc_le mod_less_divisor One_nat_def)
  ultimately show ?thesis using cs by linarith
qed

lemma chunk_rows_concat:
  assumes "1 \<le> cs"
  shows "concat (map (\<lambda>i. rows (src_chunk_of df cs i)) [0..<ceil_div (length (rows df)) cs]) = rows df"
proof -
  have "concat (map (\<lambda>i. rows (src_chunk_of df cs i)) [0..<ceil_div (length (rows df)) cs])
      = take ((ceil_div (length (rows df)) cs) * cs) (rows df)"
    using take_chunks [of cs "rows df"] by (simp add: src_chunk_of_def iloc_def ceil_div_def)
  then show ?thesis using ceil_div_covers [OF assms, of "length (rows df)"] by (simp add: ceil_div_def)
qed

lemma chunk_rows_length: "length (rows (src_chunk_of df cs i)) \<le> cs"
  by (simp add: src_chunk_of_def iloc_def)


text \<open>
  C5. For every source table and every chunk size of at least 1, the chunks of the
  submission loop, concatenated in chunk order, are the rows of the source table in their
  original order (so no row is duplicated or dropped), and no chunk has more than
  \<open>chunk_size\<close> rows.
\<close>

theorem chunks_partition_source:
  "1 \<le> chunk_size \<Longrightarrow>
     concat (map (\<lambda>i. rows (src_chunk_of src_df chunk_size i))
                 [0..<ceil_div (length (rows src_df)) chunk_size]) = rows src_df \<and>
     (\<forall>i. length (rows (src_chunk_of src_df chunk_size i)) \<le> chunk_size)"
  by (simp add: chunk_rows_concat chunk_rows_length)

theorem chunks_partition_source_witness:
  "(1::nat) \<le> 1 \<and>
   concat (map (\<lambda>i. rows (src_chunk_of ex_src 1 i)) [0..<ceil_div (length (rows ex_src)) 1]) = rows ex_src \<and>
   (\<forall>i. length (rows (src_chunk_of ex_src 1 i)) \<le> 1)"
  using chunks_partition_source [of 1 ex_src] by simp

section \<open>Loading\<close>

lemma preprocessed_load: "preprocessed (strip_cell (fillna v))"
  by (cases v) (simp_all add: stripped_strip)

lemma loaded_cell:
  "r \<in> set (rows (read_blob_to_df csv)) \<Longrightarrow> preprocessed (r col)"
  by (auto simp: read_blob_to_df_def preprocessed_load)

lemma loaded_keys:
  "getcol (read_blob_to_df csv) pk = Inr keys \<Longrightarrow> k \<in> set keys \<Longrightarrow> preprocessed k"
  by (auto simp: getcol_def loaded_cell split: if_splits)

lemma chunk_rows_subset: "set (rows (src_chunk_of df cs i)) \<subseteq> set (rows df)"
  by (auto simp: src_chunk_of_def iloc_def dest: in_set_dropD in_set_takeD)

lemma loaded_chunk_keys:
  "getcol (src_chunk_of (read_blob_to_df csv) cs i) pk = Inr keys \<Longrightarrow> k \<in> set keys \<Longrightarrow> preprocessed k"
proof -
  assume g: "getcol (src_chunk_of (read_blob_to_df csv) cs i) pk = Inr keys" and k: "k \<in> set keys"
  from g have "keys = map (\<lambda>r. r pk) (rows (src_chunk_of (read_blob_to_df csv) cs i))"
    by (simp add: getcol_def split: if_splits)
  with k obtain r where r: "r \<in> set (rows (src_chunk_of (read_blob_to_df csv) cs i))" and kr: "k = r pk"
    by auto
  from r have "r \<in> set (rows (read_blob_to_df csv))"
    using chunk_rows_subset by blast
  then show "preprocessed k" unfolding kr by (rule loaded_cell)
qed

text \<open>
  C10. Every cell of a loaded table is pre-processed: it is what \<open>fillna\<close> and then
  the stripping make of the parsed cell, so it is never NaN or \<open>None\<close> and, when a
  string, has no leading or trailing whitespace. This holds in particular for the key
  cells of the target table and of every source chunk, the operands of the membership
  test, since the run compares the loaded tables.
\<close>

theorem cells_preprocessed_at_load:
  "(r \<in> set (rows (read_blob_to_df csv)) \<longrightarrow> preprocessed (r col)) \<and>
   (i < length (rows csv) \<longrightarrow>
      (rows (read_blob_to_df csv) ! i) col = strip_cell (fillna ((rows csv ! i) col))) \<and>
   (getcol (read_blob_to_df target_csv) pk_col = Inr tgt_keys \<longrightarrow> k \<in> set tgt_keys \<longrightarrow> preprocessed k) \<and>
   (getcol (src_chunk_of (read_blob_to_df source_csv) chunk_size j) pk_col = Inr src_keys \<longrightarrow>
      k' \<in> set src_keys \<longrightarrow> preprocessed k') \<and>
   (pk_col \<in> set (columns source_csv) \<longrightarrow> pk_col \<in> set (columns target_csv) \<longrightarrow>
      process_parallel_blob cores mem sched source_csv target_csv pk_col =
        compare_frames (read_blob_to_df source_csv) (read_blob_to_df target_csv) pk_col
          (fst (auto_tune_settings cores mem (length (rows source_csv))))
          (snd (auto_tune_settings cores mem (length (rows source_csv)))) sched)"
proof (intro conjI impI)
  show "process_parallel_blob cores mem sched source_csv target_csv pk_col =
        compare_frames (read_blob_to_df source_csv) (read_blob_to_df target_csv) pk_col
          (fst (auto_tune_settings cores mem (length (rows source_csv))))
          (snd (auto_tune_settings cores mem (length (rows source_csv)))) sched"
    if "pk_col \<in> set (columns source_csv)" "pk_col \<in> set (columns target_csv)"
    using that by (simp add: process_parallel_blob_def read_blob_to_df_def Let_def split: prod.splits)
qed (simp_all add: loaded_cell loaded_keys loaded_chunk_keys, simp add: read_blob_to_df_def)


theorem cells_preprocessed_at_load_witness:
  "hd (rows (read_blob_to_df ex_csv)) \<in> set (rows (read_blob_to_df ex_csv)) \<and>
   preprocessed (hd (rows (read_blob_to_df ex_csv)) (ascii ''a'')) \<and>
   (0::nat) < length (rows ex_csv) \<and>
   (rows ex_csv ! 0) (ascii ''a'') = PNaN \<and>
   (rows (read_blob_to_df ex_csv) ! 0) (ascii ''a'') = PStr [] \<and>
   (rows ex_csv ! 0) (ascii ''pk'') = PStr (ascii '' 7 '') \<and>
   getcol (read_blob_to_df ex_csv) (ascii ''pk'') = Inr [PStr (ascii ''7'')] \<and>
   PStr (ascii ''7'') \<in> set [PStr (ascii ''7'')] \<and>
   getcol (src_chunk_of (read_blob_to_df ex_csv) 20000 0) (ascii ''pk'') = Inr [PStr (ascii ''7'')] \<and>
   preprocessed (PStr (ascii ''7'')) \<and>
   ascii ''pk'' \<in> set (columns ex_csv) \<and>
   process_parallel_blob (Some 4) 8589934592 [] ex_csv ex_csv (ascii ''pk'') =
     compare_frames (read_blob_to_df ex_csv) (read_blob_to_df ex_csv) (ascii ''pk'') 20000 4 []"
  using cells_preprocessed_at_load [where r = "hd (rows (read_blob_to_df ex_csv))" and csv = ex_csv
      and col = "ascii ''a''" and i = 0 and target_csv = ex_csv and source_csv = ex_csv
      and pk_col = "ascii ''pk''" and tgt_keys = "[PStr (ascii ''7'')]" and k = "PStr (ascii ''7'')"
      and chunk_size = 20000 and j = 0 and src_keys = "[PStr (ascii ''7'')]"
      and k' = "PStr (ascii ''7'')" and cores = "Some 4" and mem = 8589934592 and sched = "[]"]
  by (simp add: ex_csv_def read_blob_to_df_def getcol_def src_chunk_of_def iloc_def mk_row_def
      ascii_def strip_def is_space_def tune_small)

section \<open>Validation of the key column\<close>

text \<open>
  C4 (amended). If the primary-key column is absent from the source table, the target
  table, or both, the run fails with a \<open>KeyError\<close> whose message names the column and
  says that it was not found in one of the files, without saying in which; no chunk is
  built and no counter is produced.
\<close>

theorem missing_key_column_fails:
  "pk_col \<notin> set (columns source_csv) \<or> pk_col \<notin> set (columns target_csv) \<Longrightarrow>
   process_parallel_blob cores mem sched source_csv target_csv pk_col =
     Inl (KeyError (ascii ''Primary key '' @ [39] @ pk_col @ [39] @
                    ascii '' not found in one of the files''))"
  by (auto simp: process_parallel_blob_def read_blob_to_df_def key_error_message_def Let_def)

theorem missing_key_column_fails_witness:
  "ascii ''pk'' \<notin> set (columns ex_nokey) \<and>
   process_parallel_blob (Some 4) 8589934592 [] ex_nokey ex_tgt (ascii ''pk'') =
     Inl (KeyError (ascii ''Primary key '' @ [39] @ ascii ''pk'' @ [39] @
                    ascii '' not found in one of the files''))"
  using missing_key_column_fails [of "ascii ''pk''" ex_nokey ex_tgt "Some 4" 8589934592 "[]"]
  by (simp add: ex_nokey_def ascii_def)

text \<open>
  The error does not tell which table lacks the column: a run whose source lacks it and
  a run whose target lacks it fail with the same error.
\<close>

theorem error_does_not_name_table_counterexample:
  "ascii ''pk'' \<notin> set (columns ex_nokey) \<and> ascii ''pk'' \<in> set (columns ex_src) \<and>
   ascii ''pk'' \<in> set (columns ex_tgt) \<and>
   process_parallel_blob (Some 4) 8589934592 [] ex_nokey ex_tgt (ascii ''pk'') =
     Inl (KeyError (key_error_message (ascii ''pk''))) \<and>
   process_parallel_blob (Some 4) 8589934592 [] ex_src ex_nokey (ascii ''pk'') =
     Inl (KeyError (key_error_message (ascii ''pk'')))"
  by (simp add: process_parallel_blob_def read_blob_to_df_def Let_def ex_nokey_def ex_src_def
      ex_tgt_def ascii_def)

section \<open>Workers and completion order\<close>

lemma build_tgt_map_total:
  "pk \<in> set cols \<Longrightarrow> \<exists>m'. build_tgt_map cols pk rs m = Inr m'"
  by (induction rs arbitrary: m) simp_all

lemma compare_rows_total:
  "pk \<in> set cols \<Longrightarrow> \<exists>res. compare_rows cols pk m rs st = Inr res"
  by (induction rs arbitrary: st) (simp_all add: Let_def split: option.splits)

lemma compare_chunk_total:
  assumes "pk \<in> set (columns s)" "pk \<in> set (columns t)"
  shows "\<exists>res. compare_chunk s t pk = Inr res"
proof -
  obtain m where "(if \<not> df_empty t then build_tgt_map (columns t) pk (rows t) Map.empty
                   else Inr Map.empty) = Inr m"
    using build_tgt_map_total [OF assms(2)] by (cases "df_empty t") auto
  then show ?thesis
    using compare_rows_total [OF assms(1)] by (simp add: compare_chunk_def)
qed

lemma mask_filter:
  "map snd (filter (\<lambda>(k, r). P k) (zip (map f xs) xs)) = filter (\<lambda>r. P (f r)) xs"
  by (induction xs) simp_all

lemma columns_src_chunk_of: "columns (src_chunk_of df cs i) = columns df"
  by (simp add: src_chunk_of_def iloc_def)

lemma tgt_chunk_of_Inr:
  assumes "tgt_chunk_of T c pk = Inr tc"
  shows "pk \<in> set (columns T)" "pk \<in> set (columns c)" "columns tc = columns T"
    "rows tc = filter (\<lambda>r. r pk \<in> (\<lambda>s. s pk) ` set (rows c)) (rows T)"
  using assms
  by (auto simp: tgt_chunk_of_def getcol_def mask_filter split: if_splits)

lemma tgt_chunk_of_total:
  "pk \<in> set (columns T) \<Longrightarrow> pk \<in> set (columns c) \<Longrightarrow> \<exists>tc. tgt_chunk_of T c pk = Inr tc"
  by (simp add: tgt_chunk_of_def getcol_def)

lemma submit_chunks_all_return:
  "submit_chunks S T pk cs is = Inr fs \<Longrightarrow> \<exists>rs. fs = map Inr rs"
proof (induction "is" arbitrary: fs)
  case Nil
  then show ?case by simp
next
  case (Cons i "is")
  from Cons.prems obtain tc fs' where
    tc: "tgt_chunk_of T (src_chunk_of S cs i) pk = Inr tc" and
    fs': "submit_chunks S T pk cs is = Inr fs'" and
    fs: "fs = compare_chunk (src_chunk_of S cs i) tc pk # fs'"
    by (auto simp: Let_def split: sum.splits)
  obtain res where res: "compare_chunk (src_chunk_of S cs i) tc pk = Inr res"
    using compare_chunk_total [of pk "src_chunk_of S cs i" tc] tgt_chunk_of_Inr [OF tc]
    by auto
  obtain rs where "fs' = map Inr rs" using Cons.IH [OF fs'] by blast
  then have "fs = map Inr (res # rs)" by (simp add: fs res)
  then show ?case by blast
qed

lemma aggregate_all_return:
  "\<exists>tot. aggregate (map Inr rs) acc = Inr tot \<and>
     matched tot = matched acc + sum_list (map matched rs) \<and>
     missing tot = missing acc + sum_list (map missing rs) \<and>
     mismatched tot = mismatched acc + sum_list (map mismatched rs) \<and>
     checked tot = checked acc + sum_list (map checked rs)"
proof (induction rs arbitrary: acc)
  case Nil
  then show ?case by simp
next
  case (Cons r rs)
  show ?case
    using Cons.IH [of "\<lparr>diffs = diffs acc @ diffs r, matched = matched acc + matched r,
        missing = missing acc + missing r, mismatched = mismatched acc + mismatched r,
        checked = checked acc + checked r\<rparr>"]
    by auto
qed

lemma as_completed_step:
  "xs \<noteq> [] \<Longrightarrow>
   as_completed sched xs =
     xs ! pick sched (length xs) #
     as_completed (tl sched) (take (pick sched (length xs)) xs @ drop (Suc (pick sched (length xs))) xs)"
  by (cases xs) simp_all

lemma pick_less: "0 < n \<Longrightarrow> pick sched n < n"
  by (simp add: pick_def split: list.splits)

lemma as_completed_map: "as_completed sched (map g xs) = map g (as_completed sched xs)"
proof (induction sched xs rule: as_completed.induct)
  case (1 sched)
  then show ?case by simp
next
  case (2 sched f fs)
  define xs where "xs = f # fs"
  define k where "k = pick sched (length xs)"
  have ne: "xs \<noteq> []" by (simp add: xs_def)
  have k: "k < length xs" unfolding k_def using ne by (intro pick_less) simp
  have IH: "as_completed (tl sched) (map g (take k xs @ drop (Suc k) xs)) =
            map g (as_completed (tl sched) (take k xs @ drop (Suc k) xs))"
    using 2 by (simp add: xs_def k_def)
  have "as_completed sched (map g xs) =
        map g xs ! k # as_completed (tl sched) (take k (map g xs) @ drop (Suc k) (map g xs))"
    using as_completed_step [of "map g xs" sched] ne by (simp add: k_def)
  also have "\<dots> = g (xs ! k) # as_completed (tl sched) (map g (take k xs @ drop (Suc k) xs))"
    using k by (simp add: take_map drop_map)
  also have "\<dots> = map g (as_completed sched xs)"
    using IH as_completed_step [OF ne, of sched] by (simp add: k_def)
  finally show ?case by (simp add: xs_def)
qed

lemma sum_list_as_completed:
  "sum_list (map (g :: 'a \<Rightarrow> nat) (as_completed sched xs)) = sum_list (map g xs)"
proof -
  have "mset (map g (as_completed sched xs)) = mset (map g xs)"
    by (simp add: mset_as_completed)
  then show ?thesis by (metis sum_mset_sum_list)
qed


lemma compare_frames_counters:
  assumes "1 \<le> w"
  shows "map_sum id (counters \<circ> totals) (compare_frames S T pk cs w sched) =
     (if cs = 0 then Inl ZeroDivisionError
      else case submit_chunks S T pk cs [0..<ceil_div (length (rows S)) cs] of
             Inl e \<Rightarrow> Inl e
           | Inr fs \<Rightarrow>
               Inr (sum_list (map (matched \<circ> projr) fs), sum_list (map (missing \<circ> projr) fs),
                    sum_list (map (mismatched \<circ> projr) fs), sum_list (map (checked \<circ> projr) fs)))"
proof (cases "cs = 0")
  case True
  then show ?thesis by (simp add: compare_frames_def)
next
  case cs: False
  show ?thesis
  proof (cases "submit_chunks S T pk cs [0..<ceil_div (length (rows S)) cs]")
    case (Inl e)
    then show ?thesis using cs assms by (simp add: compare_frames_def)
  next
    case (Inr fs)
    then obtain rs where fs: "fs = map Inr rs"
      using submit_chunks_all_return by blast
    obtain tot where
      agg: "aggregate (map Inr (as_completed sched rs)) zero_result = Inr tot" and
      m: "matched tot = matched zero_result + sum_list (map matched (as_completed sched rs))" and
      mi: "missing tot = missing zero_result + sum_list (map missing (as_completed sched rs))" and
      mm: "mismatched tot = mismatched zero_result + sum_list (map mismatched (as_completed sched rs))" and
      ch: "checked tot = checked zero_result + sum_list (map checked (as_completed sched rs))"
      using aggregate_all_return [of "as_completed sched rs" zero_result] by blast
    have c: "counters tot = (sum_list (map matched rs), sum_list (map missing rs),
                             sum_list (map mismatched rs), sum_list (map checked rs))"
      by (simp add: counters_def m mi mm ch sum_list_as_completed zero_result_def)
    have p: "map (f \<circ> projr) (map Inr rs) = map f rs" for f :: "chunk_result \<Rightarrow> nat"
      by simp
    show ?thesis
      using cs assms Inr agg c
      by (simp add: compare_frames_def fs as_completed_map p del: map_map)
  qed
qed

lemma auto_tune_positive:
  "1 \<le> fst (auto_tune_settings cores mem n) \<and> 1 \<le> snd (auto_tune_settings cores mem n)"
  by (auto simp: auto_tune_settings_def Let_def split: option.splits)

lemma auto_tune_chunk_size_cores:
  "fst (auto_tune_settings c1 mem n) = fst (auto_tune_settings c2 mem n)"
  by (simp add: auto_tune_settings_def Let_def)

lemma process_parallel_blob_tuned:
  "process_parallel_blob cores mem sched A B pk =
     (if pk \<notin> set (columns A) \<or> pk \<notin> set (columns B) then Inl (KeyError (key_error_message pk))
      else compare_frames (read_blob_to_df A) (read_blob_to_df B) pk
             (fst (auto_tune_settings cores mem (length (rows A))))
             (snd (auto_tune_settings cores mem (length (rows A)))) sched)"
  by (simp add: process_parallel_blob_def read_blob_to_df_def Let_def split: prod.splits)

text \<open>
  C6. For the same tables, key column and chunk size, the aggregated matched, missing,
  mismatched and checked counts (or the error, when the run fails) are the same for
  every worker count of at least 1 and every completion order of the chunks. For a whole
  run, whose worker count is tuned from the number of cores, they are the same for every
  number of cores and every completion order.
\<close>

theorem counts_independent_of_workers_and_order:
  "(1 \<le> w1 \<longrightarrow> 1 \<le> w2 \<longrightarrow>
      map_sum id (counters \<circ> totals) (compare_frames src_df tgt_df pk_col chunk_size w1 sched1) =
      map_sum id (counters \<circ> totals) (compare_frames src_df tgt_df pk_col chunk_size w2 sched2)) \<and>
   map_sum id (counters \<circ> totals) (process_parallel_blob cores1 mem sched1 source_csv target_csv pk_col) =
   map_sum id (counters \<circ> totals) (process_parallel_blob cores2 mem sched2 source_csv target_csv pk_col)"
proof (intro conjI impI)
  show "map_sum id (counters \<circ> totals) (compare_frames src_df tgt_df pk_col chunk_size w1 sched1) =
        map_sum id (counters \<circ> totals) (compare_frames src_df tgt_df pk_col chunk_size w2 sched2)"
    if "1 \<le> w1" "1 \<le> w2"
    using that by (simp only: compare_frames_counters)
  show "map_sum id (counters \<circ> totals) (process_parallel_blob cores1 mem sched1 source_csv target_csv pk_col) =
        map_sum id (counters \<circ> totals) (process_parallel_blob cores2 mem sched2 source_csv target_csv pk_col)"
    using auto_tune_positive [of cores1 mem "length (rows source_csv)"]
      auto_tune_positive [of cores2 mem "length (rows source_csv)"]
      auto_tune_chunk_size_cores [of cores1 mem "length (rows source_csv)" cores2]
    by (simp add: process_parallel_blob_tuned compare_frames_counters del: One_nat_def)
qed

lemma ex_two_chunks:
  "map_sum id (counters \<circ> totals) (compare_frames ex_src ex_tgt (ascii ''pk'') 1 4 [1]) = Inr (1, 1, 0, 2)"
  by (simp add: ex_src_def ex_tgt_def eval_defs counters_def)

theorem counts_independent_of_workers_and_order_witness:
  "(1::nat) \<le> 1 \<and> (1::nat) \<le> 4 \<and>
   map_sum id (counters \<circ> totals) (compare_frames ex_src ex_tgt (ascii ''pk'') 1 1 []) = Inr (1, 1, 0, 2) \<and>
   map_sum id (counters \<circ> totals) (compare_frames ex_src ex_tgt (ascii ''pk'') 1 4 [1]) = Inr (1, 1, 0, 2) \<and>
   map_sum id (counters \<circ> totals) (process_parallel_blob (Some 1) 8589934592 [] ex_src ex_tgt (ascii ''pk'')) =
   map_sum id (counters \<circ> totals) (process_parallel_blob (Some 4) 8589934592 [1] ex_src ex_tgt (ascii ''pk''))"
  using counts_independent_of_workers_and_order [where ?w1.0 = 1 and ?w2.0 = 4 and src_df = ex_src
      and tgt_df = ex_tgt and pk_col = "ascii ''pk''" and chunk_size = 1 and ?sched1.0 = "[]"
      and ?sched2.0 = "[1]" and ?cores1.0 = "Some 1" and ?cores2.0 = "Some 4" and mem = 8589934592
      and source_csv = ex_src and target_csv = ex_tgt]
    ex_two_chunks
  by simp

text \<open>Every order of the futures is the completion order of some schedule.\<close>

lemma as_completed_any_order:
  "mset ys = mset fs \<Longrightarrow> \<exists>sched. as_completed sched fs = ys"
proof (induction ys arbitrary: fs)
  case Nil
  then show ?case by simp
next
  case (Cons y ys)
  then have "y \<in> set fs" by (metis list.set_intros(1) mset_eq_setD)
  then obtain k where k: "k < length fs" and y: "fs ! k = y"
    by (auto simp: in_set_conv_nth)
  have fs: "fs = take k fs @ y # drop (Suc k) fs"
    using k y id_take_nth_drop by blast
  have "mset fs = mset (take k fs @ drop (Suc k) fs) + {#y#}"
    by (subst fs) simp
  with Cons.prems have "mset ys = mset (take k fs @ drop (Suc k) fs)" by simp
  then obtain sched where s: "as_completed sched (take k fs @ drop (Suc k) fs) = ys"
    using Cons.IH by blast
  have ne: "fs \<noteq> []" using k by auto
  have p: "pick (k # sched) (length fs) = k" using k by (simp add: pick_def)
  have "as_completed (k # sched) fs = y # ys"
    using as_completed_step [OF ne, of "k # sched"] by (simp add: p y s)
  then show ?case by blast
qed

section \<open>Counter invariants\<close>

lemma submit_chunks_total:
  assumes "pk \<in> set (columns S)" "pk \<in> set (columns T)"
  shows "\<exists>fs. submit_chunks S T pk cs is = Inr fs"
proof (induction "is")
  case Nil
  then show ?case by simp
next
  case (Cons i "is")
  obtain tc where "tgt_chunk_of T (src_chunk_of S cs i) pk = Inr tc"
    using tgt_chunk_of_total [of pk T "src_chunk_of S cs i"] assms
    by (auto simp: columns_src_chunk_of)
  then show ?case using Cons by (auto simp: Let_def)
qed

lemma compare_frames_returns:
  assumes "pk \<in> set (columns S)" "pk \<in> set (columns T)" "1 \<le> cs" "1 \<le> w"
  shows "\<exists>rep. compare_frames S T pk cs w sched = Inr rep"
proof -
  obtain fs where fs: "submit_chunks S T pk cs [0..<ceil_div (length (rows S)) cs] = Inr fs"
    using submit_chunks_total [OF assms(1,2)] by blast
  have "\<exists>c. map_sum id (counters \<circ> totals) (compare_frames S T pk cs w sched) = Inr c"
    using assms(3) by (simp add: compare_frames_counters [OF assms(4)] fs)
  then show ?thesis
    by (cases "compare_frames S T pk cs w sched") auto
qed

lemma process_parallel_blob_returns:
  assumes "pk \<in> set (columns A)" "pk \<in> set (columns B)"
  shows "\<exists>rep. process_parallel_blob cores mem sched A B pk = Inr rep"
proof -
  have "pk \<in> set (columns (read_blob_to_df A))" "pk \<in> set (columns (read_blob_to_df B))"
    using assms by (simp_all add: read_blob_to_df_def)
  then show ?thesis
    using compare_frames_returns [of pk "read_blob_to_df A" "read_blob_to_df B"
        "fst (auto_tune_settings cores mem (length (rows A)))"
        "snd (auto_tune_settings cores mem (length (rows A)))" sched]
      auto_tune_positive [of cores mem "length (rows A)"] assms
    by (simp add: process_parallel_blob_tuned del: One_nat_def)
qed

text \<open>
  C3. A chunk comparison on tables that have the key column returns a result, and every
  result it returns has \<open>checked = matched + missing + mismatched\<close>; a run on
  tables that have the key column returns a report, and the aggregated counters of every
  report satisfy the same equation.
\<close>

theorem checked_is_sum_of_outcomes:
  "(pk_col \<in> set (columns src_chunk) \<longrightarrow> pk_col \<in> set (columns tgt_chunk) \<longrightarrow>
      (\<exists>r. compare_chunk src_chunk tgt_chunk pk_col = Inr r)) \<and>
   (compare_chunk src_chunk tgt_chunk pk_col = Inr res \<longrightarrow>
      checked res = matched res + missing res + mismatched res) \<and>
   (pk_col \<in> set (columns source_csv) \<longrightarrow> pk_col \<in> set (columns target_csv) \<longrightarrow>
      (\<exists>r. process_parallel_blob cores mem sched source_csv target_csv pk_col = Inr r)) \<and>
   (process_parallel_blob cores mem sched source_csv target_csv pk_col = Inr rep \<longrightarrow>
      checked (totals rep) = matched (totals rep) + missing (totals rep) + mismatched (totals rep))"
  using compare_chunk_total [of pk_col src_chunk tgt_chunk]
    process_parallel_blob_returns [of pk_col source_csv target_csv cores mem sched]
  by (metis compare_chunk_counted compare_frames_counted process_parallel_blob_frames)

theorem checked_is_sum_of_outcomes_witness:
  "ascii ''pk'' \<in> set (columns ex_src) \<and> ascii ''pk'' \<in> set (columns ex_tgt) \<and>
   compare_chunk ex_src ex_tgt (ascii ''pk'') = Inr ex_result \<and>
   checked ex_result = matched ex_result + missing ex_result + mismatched ex_result \<and>
   process_parallel_blob (Some 4) 8589934592 [] ex_src ex_tgt (ascii ''pk'') = Inr ex_report \<and>
   checked (totals ex_report) =
     matched (totals ex_report) + missing (totals ex_report) + mismatched (totals ex_report)"
  using checked_is_sum_of_outcomes [where src_chunk = ex_src and tgt_chunk = ex_tgt
      and pk_col = "ascii ''pk''" and res = ex_result and cores = "Some 4"
      and mem = 8589934592 and sched = "[]" and source_csv = ex_src and target_csv = ex_tgt
      and rep = ex_report]
    ex_chunk ex_run
  by (simp add: ex_src_def ex_tgt_def)

text \<open>
  C9. Whenever a chunk comparison returns, its diff list has \<open>missing + mismatched\<close>
  entries; and whenever a whole run returns, the aggregated diff list has as many
  entries as the aggregated \<open>missing\<close> and \<open>mismatched\<close> counters add up to.
\<close>

theorem diffs_length_is_missing_plus_mismatched:
  "(compare_chunk src_chunk tgt_chunk pk_col = Inr res \<longrightarrow>
      length (diffs res) = missing res + mismatched res) \<and>
   (process_parallel_blob cores mem sched source_csv target_csv pk_col = Inr rep \<longrightarrow>
      length (diffs (totals rep)) = missing (totals rep) + mismatched (totals rep))"
  by (metis compare_chunk_diffs compare_frames_diffs process_parallel_blob_frames)

theorem diffs_length_is_missing_plus_mismatched_witness:
  "compare_chunk ex_src ex_tgt (ascii ''pk'') = Inr ex_result \<and>
   length (diffs ex_result) = missing ex_result + mismatched ex_result \<and>
   process_parallel_blob (Some 4) 8589934592 [] ex_src ex_tgt (ascii ''pk'') = Inr ex_report \<and>
   length (diffs (totals ex_report)) = missing (totals ex_report) + mismatched (totals ex_report)"
  using diffs_length_is_missing_plus_mismatched [where src_chunk = ex_src and tgt_chunk = ex_tgt
      and pk_col = "ascii ''pk''" and res = ex_result and cores = "Some 4"
      and mem = 8589934592 and sched = "[]" and source_csv = ex_src and target_csv = ex_tgt
      and rep = ex_report]
    ex_chunk ex_run
  by simp

section \<open>Comparing a table against itself\<close>

lemma build_tgt_map_keeps:
  "build_tgt_map cols pk rs m = Inr m' \<Longrightarrow> \<forall>r \<in> set rs. normalize (r pk) \<noteq> k \<Longrightarrow> m' k = m k"
  by (induction rs arbitrary: m) (auto split: if_splits)

lemma build_tgt_map_lookup:
  "build_tgt_map cols pk rs m = Inr m' \<Longrightarrow> \<exists>r \<in> set rs. normalize (r pk) = k \<Longrightarrow>
   \<exists>t \<in> set rs. normalize (t pk) = k \<and> m' k = Some (row_dict cols t)"
proof (induction rs arbitrary: m)
  case Nil
  then show ?case by simp
next
  case (Cons x rs)
  from Cons.prems(1) have pk: "pk \<in> set cols"
    and rest: "build_tgt_map cols pk rs (m(normalize (x pk) \<mapsto> row_dict cols x)) = Inr m'"
    by (auto split: if_splits)
  show ?case
  proof (cases "\<exists>t \<in> set rs. normalize (t pk) = k")
    case True
    then show ?thesis using Cons.IH [OF rest] by auto
  next
    case False
    then have x: "normalize (x pk) = k" using Cons.prems(2) by auto
    have "m' k = (m(normalize (x pk) \<mapsto> row_dict cols x)) k"
      using build_tgt_map_keeps [OF rest] False by metis
    then show ?thesis using x by auto
  qed
qed

lemma get_or_empty_row_dict:
  "c \<in> set cols \<Longrightarrow> get_or_empty (row_dict cols t) c = normalize (t c)"
  by (simp add: get_or_empty_def row_dict_def map_of_map_restrict)

lemma mismatch_of_empty:
  "(\<forall>c \<in> set cols. normalize (r c) = normalize (t c)) \<Longrightarrow> mismatch_of cols pk r (row_dict cols t) = []"
  by (auto simp: mismatch_of_def filter_empty_conv get_or_empty_row_dict)

lemma compare_rows_all_matched:
  assumes "pk \<in> set cols"
    and "\<forall>r \<in> set rs. \<exists>d. m (normalize (r pk)) = Some d \<and> mismatch_of cols pk r d = []"
  shows "\<exists>res. compare_rows cols pk m rs st = Inr res \<and>
           matched res = matched st + length rs \<and> missing res = missing st \<and>
           mismatched res = mismatched st"
  using assms(2)
proof (induction rs arbitrary: st)
  case Nil
  then show ?case by simp
next
  case (Cons r rs)
  from Cons.prems obtain d where d: "m (normalize (r pk)) = Some d" "mismatch_of cols pk r d = []"
    by auto
  have rest: "\<forall>r \<in> set rs. \<exists>d. m (normalize (r pk)) = Some d \<and> mismatch_of cols pk r d = []"
    using Cons.prems by simp
  show ?case
    using Cons.IH [OF rest, of "st\<lparr>checked := checked st + 1, matched := matched st + 1\<rparr>"] assms(1) d
    by (auto simp: Let_def)
qed


lemma distinct_keys_agree:
  assumes "distinct (map (\<lambda>r. normalize (r pk)) (rows df))"
  shows "same_key_rows_agree df pk"
proof -
  have "inj_on (\<lambda>r. normalize (r pk)) (set (rows df))"
    using assms by (simp add: distinct_map)
  then show ?thesis
    unfolding same_key_rows_agree_def by (metis inj_onD)
qed

lemma self_chunk_all_matched:
  assumes pk: "pk \<in> set (columns T)"
    and agree: "same_key_rows_agree T pk"
    and tc: "tgt_chunk_of T (src_chunk_of T cs i) pk = Inr tc"
  shows "\<exists>res. compare_chunk (src_chunk_of T cs i) tc pk = Inr res \<and>
           matched res = length (rows (src_chunk_of T cs i)) \<and> missing res = 0 \<and>
           mismatched res = 0"
proof -
  let ?c = "src_chunk_of T cs i"
  have cols: "columns tc = columns T" and
    rows_tc: "rows tc = filter (\<lambda>r. r pk \<in> (\<lambda>s. s pk) ` set (rows ?c)) (rows T)"
    using tgt_chunk_of_Inr [OF tc] by simp_all
  have sub: "set (rows ?c) \<subseteq> set (rows T)" by (rule chunk_rows_subset)
  have in_tc: "r \<in> set (rows tc)" if "r \<in> set (rows ?c)" for r
    using that sub by (auto simp: rows_tc)
  obtain m where m: "build_tgt_map (columns tc) pk (rows tc) Map.empty = Inr m"
    using build_tgt_map_total [of pk "columns tc"] pk cols by auto
  define tm where "tm = (if \<not> df_empty tc then m else Map.empty)"
  have tm: "(if \<not> df_empty tc then build_tgt_map (columns tc) pk (rows tc) Map.empty
             else Inr Map.empty) = Inr tm"
    by (simp add: tm_def m)
  have ok: "\<exists>d. tm (normalize (r pk)) = Some d \<and> mismatch_of (columns ?c) pk r d = []"
    if r: "r \<in> set (rows ?c)" for r
  proof -
    have rt: "r \<in> set (rows tc)" using r by (rule in_tc)
    then have "\<not> df_empty tc" using pk cols by (auto simp: df_empty_def)
    then have tmm: "tm = m" by (simp add: tm_def)
    obtain t where t: "t \<in> set (rows tc)" "normalize (t pk) = normalize (r pk)"
      "m (normalize (r pk)) = Some (row_dict (columns tc) t)"
      using build_tgt_map_lookup [OF m, of "normalize (r pk)"] rt by blast
    have tT: "t \<in> set (rows T)" using t(1) by (simp add: rows_tc)
    have rT: "r \<in> set (rows T)" using r sub by blast
    have "\<forall>col \<in> set (columns T). normalize (r col) = normalize (t col)"
      using agree rT tT t(2) unfolding same_key_rows_agree_def by metis
    then have "mismatch_of (columns T) pk r (row_dict (columns T) t) = []"
      by (rule mismatch_of_empty)
    then show ?thesis using t(3) by (simp add: tmm cols columns_src_chunk_of)
  qed
  have "\<exists>res. compare_rows (columns ?c) pk tm (rows ?c) zero_result = Inr res \<and>
           matched res = matched zero_result + length (rows ?c) \<and>
           missing res = missing zero_result \<and> mismatched res = mismatched zero_result"
    using pk ok by (intro compare_rows_all_matched) (auto simp: columns_src_chunk_of)
  then show ?thesis
    by (simp add: compare_chunk_def tm zero_result_def)
qed

lemma self_submit_all_matched:
  assumes pk: "pk \<in> set (columns T)" and agree: "same_key_rows_agree T pk"
  shows "\<exists>rs. submit_chunks T T pk cs is = Inr (map Inr rs) \<and>
           map matched rs = map (\<lambda>i. length (rows (src_chunk_of T cs i))) is \<and>
           (\<forall>r \<in> set rs. missing r = 0 \<and> mismatched r = 0)"
proof (induction "is")
  case Nil
  then show ?case by simp
next
  case (Cons i "is")
  obtain tc where tc: "tgt_chunk_of T (src_chunk_of T cs i) pk = Inr tc"
    using tgt_chunk_of_total [of pk T "src_chunk_of T cs i"] pk by (auto simp: columns_src_chunk_of)
  obtain res where res: "compare_chunk (src_chunk_of T cs i) tc pk = Inr res"
    "matched res = length (rows (src_chunk_of T cs i))" "missing res = 0" "mismatched res = 0"
    using self_chunk_all_matched [OF pk agree tc] by blast
  obtain rs where rs: "submit_chunks T T pk cs is = Inr (map Inr rs)"
    "map matched rs = map (\<lambda>i. length (rows (src_chunk_of T cs i))) is"
    "\<forall>r \<in> set rs. missing r = 0 \<and> mismatched r = 0"
    using Cons.IH by blast
  have "submit_chunks T T pk cs (i # is) = Inr (map Inr (res # rs))"
    by (simp add: tc res(1) rs(1))
  moreover have "map matched (res # rs) = map (\<lambda>i. length (rows (src_chunk_of T cs i))) (i # is)"
    by (simp add: res(2) rs(2))
  moreover have "\<forall>r \<in> set (res # rs). missing r = 0 \<and> mismatched r = 0"
    using res(3,4) rs(3) by simp
  ultimately show ?case by blast
qed

lemma sum_list_zero: "(\<forall>x \<in> set xs. g x = (0::nat)) \<Longrightarrow> sum_list (map g xs) = 0"
  by (induction xs) simp_all

lemma self_compare_frames:
  assumes pk: "pk \<in> set (columns T)" and agree: "same_key_rows_agree T pk"
    and cs: "1 \<le> cs" and w: "1 \<le> w"
  shows "\<exists>rep. compare_frames T T pk cs w sched = Inr rep \<and> missing (totals rep) = 0 \<and>
           mismatched (totals rep) = 0 \<and> matched (totals rep) = length (rows T)"
proof -
  let ?is = "[0..<ceil_div (length (rows T)) cs]"
  obtain rs where rs: "submit_chunks T T pk cs ?is = Inr (map Inr rs)"
    "map matched rs = map (\<lambda>i. length (rows (src_chunk_of T cs i))) ?is"
    "\<forall>r \<in> set rs. missing r = 0 \<and> mismatched r = 0"
    using self_submit_all_matched [OF pk agree] by blast
  have "sum_list (map matched rs) = length (concat (map (\<lambda>i. rows (src_chunk_of T cs i)) ?is))"
    by (simp add: rs(2) length_concat comp_def)
  then have m: "sum_list (map matched rs) = length (rows T)"
    by (simp add: chunk_rows_concat [OF cs])
  have z: "sum_list (map missing rs) = 0" "sum_list (map mismatched rs) = 0"
    using rs(3) by (simp_all add: sum_list_zero)
  have p: "map (f \<circ> projr) (map Inr rs) = map f rs" for f :: "chunk_result \<Rightarrow> nat"
    by simp
  have "map_sum id (counters \<circ> totals) (compare_frames T T pk cs w sched) =
        Inr (length (rows T), 0, 0, sum_list (map checked rs))"
    using cs by (simp add: compare_frames_counters [OF w] rs(1) p m z del: map_map)
  then show ?thesis
    by (cases "compare_frames T T pk cs w sched") (auto simp: counters_def)
qed

text \<open>
  C1 (amended). For every table with the primary-key column present in which rows that
  share a normalized key agree on every normalized cell (in particular every table whose
  normalized keys are pairwise distinct, \<open>distinct_keys_agree\<close>), the full comparison
  of the table against itself returns with \<open>missing = 0\<close>, \<open>mismatched = 0\<close> and
  \<open>matched\<close> equal to the number of rows, for every machine and completion order.
\<close>

theorem self_comparison_all_matched:
  assumes "pk_col \<in> set (columns csv)"
    and "same_key_rows_agree (read_blob_to_df csv) pk_col"
  shows "\<exists>rep. process_parallel_blob cores mem sched csv csv pk_col = Inr rep \<and>
           missing (totals rep) = 0 \<and> mismatched (totals rep) = 0 \<and>
           matched (totals rep) = length (rows csv)"
proof -
  have "pk_col \<in> set (columns (read_blob_to_df csv))"
    using assms(1) by (simp add: read_blob_to_df_def)
  then show ?thesis
    using self_compare_frames [OF _ assms(2), of "fst (auto_tune_settings cores mem (length (rows csv)))"
        "snd (auto_tune_settings cores mem (length (rows csv)))" sched]
      auto_tune_positive [of cores mem "length (rows csv)"] assms(1)
    by (simp add: process_parallel_blob_tuned read_blob_to_df_def del: One_nat_def)
qed


theorem self_comparison_all_matched_witness:
  "ascii ''pk'' \<in> set (columns ex_src) \<and>
   same_key_rows_agree (read_blob_to_df ex_src) (ascii ''pk'') \<and>
   (\<exists>rep. process_parallel_blob (Some 4) 8589934592 [] ex_src ex_src (ascii ''pk'') = Inr rep \<and>
      missing (totals rep) = 0 \<and> mismatched (totals rep) = 0 \<and>
      matched (totals rep) = length (rows ex_src))"
  using self_comparison_all_matched [of "ascii ''pk''" ex_src "Some 4" 8589934592 "[]"]
  by (simp add: ex_src_def same_key_rows_agree_def read_blob_to_df_def ascii_def mk_row_def
      clean_def strip_def remove_char_def is_space_def)

text \<open>
  Without that condition the claim fails: of two rows with the same key and different
  cells the later one overwrites the earlier one in the target map, and the earlier
  source row is reported as mismatched.
\<close>

theorem self_comparison_duplicate_key_counterexample:
  "ascii ''pk'' \<in> set (columns ex_dup) \<and> length (rows ex_dup) = 2 \<and>
   map_sum id (counters \<circ> totals)
     (process_parallel_blob (Some 4) 8589934592 [] ex_dup ex_dup (ascii ''pk'')) = Inr (1, 0, 1, 2)"
  by (simp add: ex_dup_def eval_defs tune_small counters_def)

section \<open>Cosmetic differences in the key\<close>

text \<open>
  C2 at a failing input. The source key \<open>A\xa0B\<close> and the target key \<open>AB\<close> have
  the same normalized value and the other cells are equal, so the chunk comparison on
  the two loaded tables reports the row as matched; the full comparison reports it as
  missing, because the target subset of the chunk is selected by the cells as they are.
\<close>

theorem nbsp_key_reported_missing:
  "normalize (PStr [65, 160, 66]) = normalize (PStr [65, 66]) \<and>
   map_sum id counters
     (compare_chunk (read_blob_to_df ex_nbsp_src) (read_blob_to_df ex_nbsp_tgt) (ascii ''pk'')) =
     Inr (1, 0, 0, 1) \<and>
   map_sum id totals
     (process_parallel_blob (Some 4) 8589934592 [] ex_nbsp_src ex_nbsp_tgt (ascii ''pk'')) =
     Inr \<lparr>diffs = [MissingInTarget (ascii ''AB'')], matched = 0, missing = 1, mismatched = 0,
          checked = 1\<rparr>"
  by (simp add: ex_nbsp_src_def ex_nbsp_tgt_def eval_defs tune_small counters_def)

theorem nbsp_key_reported_missing_witness:
  "map_sum id (counters \<circ> totals)
     (process_parallel_blob (Some 4) 8589934592 [] ex_nbsp_src ex_nbsp_tgt (ascii ''pk'')) =
     Inr (0, 1, 0, 1)"
  using nbsp_key_reported_missing
  by (cases "process_parallel_blob (Some 4) 8589934592 [] ex_nbsp_src ex_nbsp_tgt (ascii ''pk'')")
    (auto simp: counters_def)

end
